theory Spec2Isabelle
  imports Complex_Main "HOL-Library.Word" "HOL-Library.AList"
begin

section \<open>Data model\<close>

text \<open>
  The session file is a Python \<open>bytes\<close> object: an immutable sequence of bytes.
  Indexing it yields a Python \<open>int\<close> in the range 0..255, and all offsets, strides
  and dimensions are unbounded Python integers, modelled as \<open>int\<close>.
\<close>

type_synonym byte = "8 word"
type_synonym buffer = "byte list"

text \<open>
  The exceptions the code can raise. \<open>UsageError\<close> is \<open>click.UsageError\<close>,
  \<open>IndexError\<close> is raised by \<open>_read_u8\<close>; both carry their message. \<open>TypeError\<close>
  stands for comparing \<open>None\<close> with an integer, which no call of this file reaches.
\<close>

datatype error = UsageError string | IndexError string | TypeError

text \<open>
  The per-step dictionary \<open>step_data: Dict[str, int]\<close> is an association list in
  insertion order; \<open>d[k] = v\<close> is \<open>AList.update k v d\<close> and \<open>d.get(k)\<close> is
  \<open>map_of d k\<close>.
\<close>

type_synonym step_data = "(string \<times> int) list"

text \<open>\<open>{"pattern": p, "steps": steps_list}\<close>\<close>

record pattern_entry =
  pe_pattern :: int
  pe_steps :: "step_data list"

text \<open>\<open>{"track": t, "patterns": [...]}\<close>\<close>

record track_entry =
  te_track :: int
  te_patterns :: "pattern_entry list"

text \<open>
  The keyword arguments of \<open>extract_drum_patterns\<close> that describe the layout. The
  \<open>"meta"\<close> dictionary of the result repeats exactly these values.
\<close>

record layout =
  base :: int
  vel_off :: "int option"
  prob_off :: "int option"
  choice_off :: "int option"
  mask_off :: "int option"
  track_stride :: int
  pattern_stride :: int
  tracks :: int
  patterns :: int
  steps :: int

text \<open>\<open>{"meta": {...}, "tracks": [...]}\<close>\<close>

record extraction =
  r_meta :: layout
  r_tracks :: "track_entry list"

section \<open>Formatting helpers\<close>

text \<open>The format specification \<open>{off:X}\<close>: upper-case hexadecimal, with a sign for
  negative numbers.\<close>

definition hex_digit :: "nat \<Rightarrow> char" where
  "hex_digit d = ''0123456789ABCDEF'' ! d"

fun hex_nat :: "nat \<Rightarrow> string" where
  "hex_nat n = (if n < 16 then [hex_digit n] else hex_nat (n div 16) @ [hex_digit (n mod 16)])"

declare hex_nat.simps [simp del]

definition format_X :: "int \<Rightarrow> string" where
  "format_X n = (if n < 0 then CHR ''-'' # hex_nat (nat (- n)) else hex_nat (nat n))"

section \<open>Address computation and byte reads\<close>

definition read_u8 :: "buffer \<Rightarrow> int \<Rightarrow> error + int" where
  "read_u8 buf off =
     (if off < 0 \<or> off \<ge> int (length buf)
      then Inl (IndexError (''read past end of buffer at 0x'' @ format_X off))
      else Inr (uint (buf ! nat off)))"

definition idx :: "int \<Rightarrow> int \<Rightarrow> int \<Rightarrow> int \<Rightarrow> int \<Rightarrow> int" where
  "idx track pattern step trk_stride pat_stride =
     track * trk_stride + pattern * pat_stride + step"

definition clamp :: "int \<Rightarrow> int \<Rightarrow> int \<Rightarrow> int" where
  "clamp x lo hi = max lo (min hi x)"

text \<open>The local function \<open>field_offset\<close> of \<open>extract_drum_patterns\<close>; \<open>b\<close> is the
  enclosing \<open>base\<close>.\<close>

definition field_offset :: "int \<Rightarrow> int option \<Rightarrow> int \<Rightarrow> int option" where
  "field_offset b field_base index =
     (case field_base of None \<Rightarrow> None | Some fb \<Rightarrow> Some (b + fb + index))"

text \<open>\<open>_read_u8(data, o)\<close> where \<open>o\<close> is the \<open>Optional[int]\<close> that \<open>field_offset\<close>
  returned.\<close>

definition read_at :: "buffer \<Rightarrow> int option \<Rightarrow> error + int" where
  "read_at data off = (case off of None \<Rightarrow> Inl TypeError | Some k \<Rightarrow> read_u8 data k)"

section \<open>Extraction\<close>

text \<open>\<open>range(n)\<close>\<close>

definition py_range :: "int \<Rightarrow> int list" where
  "py_range n = [0..n - 1]"

text \<open>
  A \<open>for\<close> loop that appends one value per iteration to a list and is left by the first
  exception its body raises.
\<close>

fun collect :: "('a \<Rightarrow> error + 'b) \<Rightarrow> 'a list \<Rightarrow> 'b list \<Rightarrow> error + 'b list" where
  "collect body [] acc = Inr acc"
| "collect body (x # xs) acc =
     (case body x of Inl e \<Rightarrow> Inl e | Inr y \<Rightarrow> collect body xs (acc @ [y]))"

text \<open>The body of the innermost loop: the dictionary of one step.\<close>

definition read_step :: "buffer \<Rightarrow> layout \<Rightarrow> int \<Rightarrow> int \<Rightarrow> int \<Rightarrow> error + step_data" where
  "read_step data L t p s =
     (let offset_idx = idx t p s (track_stride L) (pattern_stride L);
          v_off = field_offset (base L) (vel_off L) offset_idx
      in case (if v_off \<noteq> None then read_at data v_off else Inr 0) of
           Inl e \<Rightarrow> Inl e
         | Inr v \<Rightarrow>
      (let d0 = AList.update ''velocity'' v []
       in case (if prob_off L \<noteq> None
                then map_sum id (\<lambda>x. AList.update ''probability'' x d0)
                       (read_at data (field_offset (base L) (prob_off L) offset_idx))
                else Inr d0) of
            Inl e \<Rightarrow> Inl e
          | Inr d1 \<Rightarrow>
         (case (if choice_off L \<noteq> None
                then map_sum id (\<lambda>x. AList.update ''choice'' x d1)
                       (read_at data (field_offset (base L) (choice_off L) offset_idx))
                else Inr d1) of
            Inl e \<Rightarrow> Inl e
          | Inr d2 \<Rightarrow>
              (if mask_off L \<noteq> None
               then map_sum id (\<lambda>x. AList.update ''mask'' x d2)
                      (read_at data (field_offset (base L) (mask_off L) offset_idx))
               else Inr d2))))"

text \<open>The loop over \<open>range(steps)\<close> and the entry appended for pattern \<open>p\<close>.\<close>

definition extract_pattern :: "buffer \<Rightarrow> layout \<Rightarrow> int \<Rightarrow> int \<Rightarrow> error + pattern_entry" where
  "extract_pattern data L t p =
     (case collect (read_step data L t p) (py_range (steps L)) [] of
        Inl e \<Rightarrow> Inl e
      | Inr steps_list \<Rightarrow> Inr \<lparr>pe_pattern = p, pe_steps = steps_list\<rparr>)"

text \<open>The loop over \<open>pattern_range\<close> and the entry appended for track \<open>t\<close>.\<close>

definition extract_track :: "buffer \<Rightarrow> layout \<Rightarrow> int list \<Rightarrow> int \<Rightarrow> error + track_entry" where
  "extract_track data L pattern_range t =
     (case collect (extract_pattern data L t) pattern_range [] of
        Inl e \<Rightarrow> Inl e
      | Inr ps \<Rightarrow> Inr \<lparr>te_track = t, te_patterns = ps\<rparr>)"

definition track_range :: "layout \<Rightarrow> int option \<Rightarrow> int list" where
  "track_range L track = (case track of None \<Rightarrow> py_range (tracks L) | Some t \<Rightarrow> [t])"

definition pattern_range :: "layout \<Rightarrow> int option \<Rightarrow> int list" where
  "pattern_range L pattern = (case pattern of None \<Rightarrow> py_range (patterns L) | Some p \<Rightarrow> [p])"

definition extract_drum_patterns ::
  "buffer \<Rightarrow> layout \<Rightarrow> int option \<Rightarrow> int option \<Rightarrow> error + extraction" where
  "extract_drum_patterns data L track pattern =
     (if vel_off L = None then Inl (UsageError ''Velocity offset must be provided.'')
      else case collect (extract_track data L (pattern_range L pattern)) (track_range L track) [] of
             Inl e \<Rightarrow> Inl e
           | Inr ts \<Rightarrow> Inr \<lparr>r_meta = L, r_tracks = ts\<rparr>)"

section \<open>Offset detection\<close>

definition DEFAULT_VEL_OFF :: int where "DEFAULT_VEL_OFF = 0x0CD74"
definition DEFAULT_PROB_OFF :: int where "DEFAULT_PROB_OFF = 0x0CD94"
definition DEFAULT_CHOICE_OFF :: int where "DEFAULT_CHOICE_OFF = 0x0CDB4"
definition DEFAULT_MASK_OFF :: int where "DEFAULT_MASK_OFF = 0x0CDD4"

definition DEFAULT_OFF_DIFFS :: "(string \<times> int) list" where
  "DEFAULT_OFF_DIFFS =
     [(''vel'', DEFAULT_VEL_OFF - DEFAULT_MASK_OFF),
      (''prob'', DEFAULT_PROB_OFF - DEFAULT_MASK_OFF),
      (''choice'', DEFAULT_CHOICE_OFF - DEFAULT_MASK_OFF)]"

text \<open>The slice \<open>xs[start:stop]\<close>: a negative bound counts from the end, and both
  bounds are clipped to the sequence.\<close>

definition py_slice :: "'a list \<Rightarrow> int \<Rightarrow> int \<Rightarrow> 'a list" where
  "py_slice xs start stop =
     (let n = int (length xs);
          lo = (if start < 0 then max (start + n) 0 else min start n);
          hi = (if stop < 0 then max (stop + n) 0 else min stop n)
      in take (nat (hi - lo)) (drop (nat lo) xs))"

text \<open>
  The local predicate \<open>is_mask_candidate\<close>. \<open>ratio\<close> is the quotient of two Python
  integers, compared with the literal \<open>0.6\<close>. Python computes both in binary64
  floating point; \<open>is_mask_candidate\<close> takes the quotient and the literal as exact
  numbers, and \<open>is_mask_candidate_fl\<close> below rounds both. The two agree on every segment
  shorter than \<open>2 ^ 51\<close> bytes (lemma \<open>is_mask_candidate_fl_exact\<close>). \<open>max(seg)\<close> is
  only evaluated on a non-empty segment.
\<close>

definition is_mask_candidate :: "buffer \<Rightarrow> bool" where
  "is_mask_candidate seg =
     (case seg of
        [] \<Rightarrow> False
      | b # bs \<Rightarrow>
          (let zero_count = count_list seg 0;
               ratio = real zero_count / real (length seg)
           in if ratio < 6 / 10 then False
              else if fold max bs b > 0x1F then False
              else True))"

text \<open>
  The finite binary64 numbers, and the numbers nearest to a real among them. Python's
  true division of integers returns a binary64 number nearest to the exact quotient, and
  the literal \<open>0.6\<close> denotes one nearest to six tenths. \<open>is_mask_candidate_fl fl\<close> is the
  predicate with both passed through the rounding \<open>fl\<close>.
\<close>

definition binary64 :: "real set" where
  "binary64 =
     {real_of_int m * 2 powr real_of_int e | m e. \<bar>m\<bar> < 2 ^ 53 \<and> - 1074 \<le> e \<and> e \<le> 971}"

definition nearest_binary64 :: "real \<Rightarrow> real \<Rightarrow> bool" where
  "nearest_binary64 x r \<longleftrightarrow> r \<in> binary64 \<and> (\<forall>d \<in> binary64. \<bar>r - x\<bar> \<le> \<bar>d - x\<bar>)"

definition is_mask_candidate_fl :: "(real \<Rightarrow> real) \<Rightarrow> buffer \<Rightarrow> bool" where
  "is_mask_candidate_fl fl seg =
     (case seg of
        [] \<Rightarrow> False
      | b # bs \<Rightarrow>
          (let zero_count = count_list seg 0;
               ratio = fl (real zero_count / real (length seg))
           in if ratio < fl (6 / 10) then False
              else if fold max bs b > 0x1F then False
              else True))"

text \<open>
  The scanning loop \<open>for off in range(0, len(data) - length, 16)\<close> from the offset
  \<open>off\<close> on: the list \<open>candidates\<close> it leaves, which holds the first accepted offset,
  after which the loop is left by \<open>break\<close>.
\<close>

function scan_candidates :: "buffer \<Rightarrow> int \<Rightarrow> int \<Rightarrow> int list" where
  "scan_candidates data len off =
     (if off < int (length data) - len
      then (if is_mask_candidate (py_slice data off (off + len)) then [off]
            else scan_candidates data len (off + 16))
      else [])"
  by pat_completeness auto
termination
  by (relation "measure (\<lambda>(data, len, off). nat (int (length data) - len - off))") auto

declare scan_candidates.simps [simp del]

text \<open>
  \<open>_detect_drum_offsets\<close>, without the \<open>debug\<close> output. The dictionary it returns is an
  association list in insertion order; the result \<open>None\<close> of Python is the option
  \<open>None\<close>.
\<close>

definition detect_drum_offsets ::
  "buffer \<Rightarrow> int \<Rightarrow> int \<Rightarrow> int \<Rightarrow> int option \<Rightarrow> (string \<times> int) list option" where
  "detect_drum_offsets data ntracks npatterns nsteps mask_off_hint =
     (let len = ntracks * npatterns * nsteps;
          hinted = (case mask_off_hint of
                      None \<Rightarrow> []
                    | Some h \<Rightarrow>
                        if h \<ge> 0 \<and> h + len \<le> int (length data)
                        then (if is_mask_candidate (py_slice data h (h + len)) then [h] else [])
                        else []);
          candidates = (if hinted = [] then scan_candidates data len 0 else hinted)
      in case candidates of
           [] \<Rightarrow> None
         | m_off # _ \<Rightarrow>
             (let v_off = m_off + the (map_of DEFAULT_OFF_DIFFS ''vel'');
                  p_off = m_off + the (map_of DEFAULT_OFF_DIFFS ''prob'');
                  c_off = m_off + the (map_of DEFAULT_OFF_DIFFS ''choice'')
              in if list_ex (\<lambda>off. off < 0 \<or> off + len > int (length data))
                      [v_off, p_off, c_off, m_off]
                 then None
                 else Some [(''velocity'', v_off), (''probability'', p_off),
                            (''choice'', c_off), (''mask'', m_off)]))"

section \<open>Glyph rendering\<close>

text \<open>
  A Python \<open>str\<close> that may hold characters outside ASCII is the list of its code points.
  The scale \<open>levels\<close> holds U+2581, U+2583, U+2585 and U+2588; the dot is U+002E.
\<close>

type_synonym pystr = "nat list"

definition levels :: pystr where
  "levels = [0x2581, 0x2583, 0x2585, 0x2588]"

text \<open>\<open>str(n)\<close> for an integer, as the f-string \<open>{probability}\<close> prints it.\<close>

fun dec_nat :: "nat \<Rightarrow> pystr" where
  "dec_nat n = (if n < 10 then [48 + n] else dec_nat (n div 10) @ [48 + n mod 10])"

declare dec_nat.simps [simp del]

definition str_int :: "int \<Rightarrow> pystr" where
  "str_int n = (if n < 0 then 45 # dec_nat (nat (- n)) else dec_nat (nat n))"

definition step_symbol :: "int \<Rightarrow> int option \<Rightarrow> pystr" where
  "step_symbol velocity probability =
     (if velocity = 0 then [0x2E]
      else (let i = clamp ((velocity * int (length levels)) div 128) 0 (int (length levels) - 1);
                sym = levels ! nat i
            in case probability of Some pr \<Rightarrow> sym # str_int pr | None \<Rightarrow> [sym]))"

text \<open>\<open>sep.join(xs)\<close>\<close>

fun join :: "pystr \<Rightarrow> pystr list \<Rightarrow> pystr" where
  "join sep [] = []"
| "join sep [x] = x"
| "join sep (x # y # ys) = x @ sep @ join sep (y # ys)"

definition render_ascii :: "step_data list \<Rightarrow> bool \<Rightarrow> pystr" where
  "render_ascii pattern_steps show_prob =
     join [0x20]
       (map (\<lambda>step. step_symbol
                (case map_of step ''velocity'' of None \<Rightarrow> 0 | Some v \<Rightarrow> v)
                (if show_prob then map_of step ''probability'' else None))
          pattern_steps)"

section \<open>The contract of the specification\<close>

text \<open>
  The definitions of this section follow the words of the specification, not the code;
  the theorems below compare the code with them. \<open>address_spec\<close> is the AddressModel
  contract, \<open>configured_fields\<close> lists the field bases a layout configures, in the order
  in which a step record names them, and \<open>step_spec\<close> is the step record that holds, for
  each configured field, the byte at its address.
\<close>

definition address_spec :: "layout \<Rightarrow> int \<Rightarrow> int \<Rightarrow> int \<Rightarrow> int \<Rightarrow> int" where
  "address_spec L field_base t p s =
     base L + field_base + t * track_stride L + p * pattern_stride L + s"

definition in_buffer :: "buffer \<Rightarrow> int \<Rightarrow> bool" where
  "in_buffer data a = (0 \<le> a \<and> a < int (length data))"

definition configured_fields :: "layout \<Rightarrow> (string \<times> int) list" where
  "configured_fields L =
     (case vel_off L of None \<Rightarrow> [] | Some b \<Rightarrow> [(''velocity'', b)]) @
     (case prob_off L of None \<Rightarrow> [] | Some b \<Rightarrow> [(''probability'', b)]) @
     (case choice_off L of None \<Rightarrow> [] | Some b \<Rightarrow> [(''choice'', b)]) @
     (case mask_off L of None \<Rightarrow> [] | Some b \<Rightarrow> [(''mask'', b)])"

definition step_in_bounds :: "buffer \<Rightarrow> layout \<Rightarrow> int \<Rightarrow> int \<Rightarrow> int \<Rightarrow> bool" where
  "step_in_bounds data L t p s =
     list_all (\<lambda>(name, fb). in_buffer data (address_spec L fb t p s)) (configured_fields L)"

definition step_spec :: "buffer \<Rightarrow> layout \<Rightarrow> int \<Rightarrow> int \<Rightarrow> int \<Rightarrow> step_data" where
  "step_spec data L t p s =
     map (\<lambda>(name, fb). (name, uint (data ! nat (address_spec L fb t p s)))) (configured_fields L)"

definition pattern_spec :: "buffer \<Rightarrow> layout \<Rightarrow> int \<Rightarrow> int \<Rightarrow> pattern_entry" where
  "pattern_spec data L t p =
     \<lparr>pe_pattern = p, pe_steps = map (step_spec data L t p) (py_range (steps L))\<rparr>"

definition track_spec :: "buffer \<Rightarrow> layout \<Rightarrow> int list \<Rightarrow> int \<Rightarrow> track_entry" where
  "track_spec data L prange t =
     \<lparr>te_track = t, te_patterns = map (pattern_spec data L t) prange\<rparr>"

text \<open>
  The intensity of a rendered step: the position of its first character on the scale
  dot, U+2581, U+2583, U+2585, U+2588.
\<close>

definition glyph_rank :: "pystr \<Rightarrow> nat" where
  "glyph_rank str =
     (case str of [] \<Rightarrow> 0 | g # _ \<Rightarrow> length (takeWhile (\<lambda>x. x \<noteq> g) (0x2E # levels)))"

text \<open>The message of the \<open>IndexError\<close> that \<open>_read_u8\<close> raises at an offset.\<close>

definition oob_error :: "int \<Rightarrow> error" where
  "oob_error off = IndexError (''read past end of buffer at 0x'' @ format_X off)"

section \<open>The address model\<close>

lemma idx_lt_stride:
  fixes p s ps np ns :: int
  assumes "0 \<le> s" "s < ns" "ns \<le> ps" "0 \<le> p" "p < np"
  shows "p * ps + s < np * ps"
proof -
  have "0 < ps" using assms by linarith
  have "p + 1 \<le> np" using assms by linarith
  then have "(p + 1) * ps \<le> np * ps"
    using \<open>0 < ps\<close> by (simp add: mult_right_mono)
  moreover have "p * ps + s < (p + 1) * ps"
    using assms by (simp add: algebra_simps)
  ultimately show ?thesis by linarith
qed

lemma mixed_radix_unique:
  fixes a b r r' m :: int
  assumes "a * m + r = b * m + r'" "0 \<le> r" "r < m" "0 \<le> r'" "r' < m"
  shows "a = b \<and> r = r'"
proof -
  have "0 < m" using assms by linarith
  have da: "(a * m + r) div m = a"
    using \<open>0 < m\<close> \<open>0 \<le> r\<close> \<open>r < m\<close> by simp
  have db: "(b * m + r') div m = b"
    using \<open>0 < m\<close> \<open>0 \<le> r'\<close> \<open>r' < m\<close> by simp
  have "a = b" using da db assms(1) by metis
  then show ?thesis using assms(1) by simp
qed

lemma address_eq_imp:
  assumes strides: "patterns L * pattern_stride L \<le> track_stride L" "steps L \<le> pattern_stride L"
    and r1: "0 \<le> t" "t < tracks L" "0 \<le> p" "p < patterns L" "0 \<le> s" "s < steps L"
    and r2: "0 \<le> t'" "t' < tracks L" "0 \<le> p'" "p' < patterns L" "0 \<le> s'" "s' < steps L"
    and eq: "field_offset (base L) (Some fb) (idx t p s (track_stride L) (pattern_stride L)) =
             field_offset (base L) (Some fb) (idx t' p' s' (track_stride L) (pattern_stride L))"
  shows "t = t' \<and> p = p' \<and> s = s'"
proof -
  let ?A = "track_stride L" and ?B = "pattern_stride L"
  have e: "t * ?A + (p * ?B + s) = t' * ?A + (p' * ?B + s')"
    using eq by (simp add: field_offset_def idx_def)
  have b1: "p * ?B + s < ?A"
    using idx_lt_stride [of s "steps L" ?B p "patterns L"] strides r1 by linarith
  have b2: "p' * ?B + s' < ?A"
    using idx_lt_stride [of s' "steps L" ?B p' "patterns L"] strides r2 by linarith
  have "0 < ?B" using strides r1 by linarith
  have n1: "0 \<le> p * ?B + s" using r1 \<open>0 < ?B\<close> by simp
  have n2: "0 \<le> p' * ?B + s'" using r2 \<open>0 < ?B\<close> by simp
  from mixed_radix_unique [OF e n1 b1 n2 b2]
  have tt: "t = t'" and e2: "p * ?B + s = p' * ?B + s'" by simp_all
  have "s < ?B" "s' < ?B" using strides r1 r2 by linarith+
  from mixed_radix_unique [OF e2 r1(5) this(1) r2(5) this(2)] tt
  show ?thesis by simp
qed

text \<open>
  C3. For a layout with \<open>track_stride \<ge> patterns * pattern_stride\<close> and
  \<open>pattern_stride \<ge> steps\<close>, and a fixed field base, the address
  \<open>base + field_base + t * track_stride + p * pattern_stride + s\<close> that the extraction
  computes is injective over all triples \<open>(t, p, s)\<close> with \<open>0 \<le> t < tracks\<close>,
  \<open>0 \<le> p < patterns\<close> and \<open>0 \<le> s < steps\<close>.
\<close>

theorem address_injective:
  assumes "patterns L * pattern_stride L \<le> track_stride L"
    and "steps L \<le> pattern_stride L"
  shows "inj_on (\<lambda>(t, p, s). field_offset (base L) (Some fb)
                    (idx t p s (track_stride L) (pattern_stride L)))
           ({0..<tracks L} \<times> {0..<patterns L} \<times> {0..<steps L})"
proof (rule inj_onI)
  fix x y
  assume x: "x \<in> {0..<tracks L} \<times> {0..<patterns L} \<times> {0..<steps L}"
    and y: "y \<in> {0..<tracks L} \<times> {0..<patterns L} \<times> {0..<steps L}"
    and eq: "(case x of (t, p, s) \<Rightarrow> field_offset (base L) (Some fb)
                 (idx t p s (track_stride L) (pattern_stride L))) =
             (case y of (t, p, s) \<Rightarrow> field_offset (base L) (Some fb)
                 (idx t p s (track_stride L) (pattern_stride L)))"
  obtain t p s where xd: "x = (t, p, s)" by (cases x) auto
  obtain t' p' s' where yd: "y = (t', p', s')" by (cases y) auto
  have "t = t' \<and> p = p' \<and> s = s'"
    using address_eq_imp [OF assms, of t p s t' p' s' fb] x y eq
    by (simp add: xd yd)
  then show "x = y" by (simp add: xd yd)
qed

theorem address_injective_witness:
  "inj_on (\<lambda>(t, p, s). field_offset 0 (Some 0xCD74) (idx t p s 0x3540 0x6A8))
     ({0..<4} \<times> {0..<8} \<times> {0..<32})"
  using address_injective [of "\<lparr>base = 0, vel_off = Some 0xCD74, prob_off = Some 0xCD94,
      choice_off = Some 0xCDB4, mask_off = Some 0xCDD4, track_stride = 0x3540,
      pattern_stride = 0x6A8, tracks = 4, patterns = 8, steps = 32\<rparr>" "0xCD74"]
  by simp

section \<open>The extraction engine\<close>

subsection \<open>The loops\<close>

lemma collect_all_Inr:
  "(\<And>x. x \<in> set xs \<Longrightarrow> body x = Inr (g x)) \<Longrightarrow> collect body xs acc = Inr (acc @ map g xs)"
  by (induction xs arbitrary: acc) auto

lemma collect_some_Inl:
  "x \<in> set xs \<Longrightarrow> body x = Inl e \<Longrightarrow> \<exists>x' \<in> set xs. \<exists>e'. body x' = Inl e' \<and> collect body xs acc = Inl e'"
proof (induction xs arbitrary: acc)
  case Nil
  then show ?case by simp
next
  case (Cons a xs)
  show ?case
  proof (cases "body a")
    case (Inl e0)
    then show ?thesis by auto
  next
    case (Inr y)
    with Cons.prems have "x \<in> set xs" by auto
    from Cons.IH [OF this Cons.prems(2), of "acc @ [y]"] Inr
    show ?thesis by auto
  qed
qed

lemma field_offset_address:
  "field_offset (base L) fbo (idx t p s (track_stride L) (pattern_stride L)) =
     map_option (\<lambda>fb. address_spec L fb t p s) fbo"
  by (simp add: field_offset_def idx_def address_spec_def split: option.splits)

lemma read_step_ok:
  assumes "vel_off L \<noteq> None" "step_in_bounds data L t p s"
  shows "read_step data L t p s = Inr (step_spec data L t p s)"
  using assms
  by (auto simp: read_step_def step_in_bounds_def step_spec_def configured_fields_def
      field_offset_address read_at_def read_u8_def in_buffer_def Let_def
      split: option.splits)

lemma read_step_fail:
  assumes "vel_off L \<noteq> None" "\<not> step_in_bounds data L t p s"
  shows "\<exists>(name, fb) \<in> set (configured_fields L).
           \<not> in_buffer data (address_spec L fb t p s) \<and>
           read_step data L t p s = Inl (oob_error (address_spec L fb t p s))"
  using assms
  by (auto simp: read_step_def step_in_bounds_def step_spec_def configured_fields_def oob_error_def
      field_offset_address read_at_def read_u8_def in_buffer_def Let_def
      split: option.splits)

lemma collect_Inl_D:
  "collect body xs acc = Inl e \<Longrightarrow> \<exists>x \<in> set xs. body x = Inl e"
  by (induction xs arbitrary: acc) (auto split: sum.splits)

lemma collect_Inl_I:
  assumes "x \<in> set xs" "body x = Inl e"
  shows "\<exists>e'. collect body xs acc = Inl e'"
  using collect_some_Inl [where body = body and x = x and xs = xs and e = e and acc = acc] assms
  by blast

lemma read_step_Inl_D:
  assumes "vel_off L \<noteq> None" "read_step data L t p s = Inl e"
  shows "\<exists>(name, fb) \<in> set (configured_fields L).
           \<not> in_buffer data (address_spec L fb t p s) \<and> e = oob_error (address_spec L fb t p s)"
proof (cases "step_in_bounds data L t p s")
  case True
  then show ?thesis using read_step_ok [OF assms(1) True] assms(2) by simp
next
  case False
  then show ?thesis using read_step_fail [OF assms(1) False] assms(2) by auto
qed

lemma read_step_Inl_I:
  assumes "vel_off L \<noteq> None" "\<not> step_in_bounds data L t p s"
  shows "\<exists>e. read_step data L t p s = Inl e"
  using read_step_fail [OF assms] by auto

lemma extract_pattern_ok:
  assumes "vel_off L \<noteq> None" "\<forall>s \<in> set (py_range (steps L)). step_in_bounds data L t p s"
  shows "extract_pattern data L t p = Inr (pattern_spec data L t p)"
  using assms
  by (simp add: extract_pattern_def pattern_spec_def
      collect_all_Inr [where g = "step_spec data L t p"] read_step_ok)

lemma extract_pattern_Inl_D:
  assumes "vel_off L \<noteq> None" "extract_pattern data L t p = Inl e"
  shows "\<exists>s \<in> set (py_range (steps L)). \<exists>(name, fb) \<in> set (configured_fields L).
           \<not> in_buffer data (address_spec L fb t p s) \<and> e = oob_error (address_spec L fb t p s)"
proof -
  from assms(2) have "collect (read_step data L t p) (py_range (steps L)) [] = Inl e"
    by (simp add: extract_pattern_def split: sum.splits)
  then obtain s where "s \<in> set (py_range (steps L))" "read_step data L t p s = Inl e"
    using collect_Inl_D by blast
  then show ?thesis using read_step_Inl_D [OF assms(1)] by blast
qed

lemma extract_pattern_Inl_I:
  assumes "vel_off L \<noteq> None" "s \<in> set (py_range (steps L))" "\<not> step_in_bounds data L t p s"
  shows "\<exists>e. extract_pattern data L t p = Inl e"
proof -
  obtain e where "read_step data L t p s = Inl e"
    using read_step_Inl_I [OF assms(1,3)] by blast
  with assms(2) have "\<exists>e'. collect (read_step data L t p) (py_range (steps L)) [] = Inl e'"
    by (rule collect_Inl_I [where x = s and e = e])
  then show ?thesis by (auto simp: extract_pattern_def)
qed

lemma extract_track_ok:
  assumes "vel_off L \<noteq> None"
    "\<forall>p \<in> set prange. \<forall>s \<in> set (py_range (steps L)). step_in_bounds data L t p s"
  shows "extract_track data L prange t = Inr (track_spec data L prange t)"
  using assms
  by (simp add: extract_track_def track_spec_def
      collect_all_Inr [where g = "pattern_spec data L t"] extract_pattern_ok)

lemma extract_track_Inl_D:
  assumes "vel_off L \<noteq> None" "extract_track data L prange t = Inl e"
  shows "\<exists>p \<in> set prange. \<exists>s \<in> set (py_range (steps L)). \<exists>(name, fb) \<in> set (configured_fields L).
           \<not> in_buffer data (address_spec L fb t p s) \<and> e = oob_error (address_spec L fb t p s)"
proof -
  from assms(2) have "collect (extract_pattern data L t) prange [] = Inl e"
    by (simp add: extract_track_def split: sum.splits)
  then obtain p where "p \<in> set prange" "extract_pattern data L t p = Inl e"
    using collect_Inl_D by blast
  then show ?thesis using extract_pattern_Inl_D [OF assms(1)] by blast
qed

lemma extract_track_Inl_I:
  assumes "vel_off L \<noteq> None" "p \<in> set prange" "s \<in> set (py_range (steps L))"
    "\<not> step_in_bounds data L t p s"
  shows "\<exists>e. extract_track data L prange t = Inl e"
proof -
  obtain e where "extract_pattern data L t p = Inl e"
    using extract_pattern_Inl_I [OF assms(1,3,4)] by blast
  with assms(2) have "\<exists>e'. collect (extract_pattern data L t) prange [] = Inl e'"
    by (rule collect_Inl_I [where x = p and e = e])
  then show ?thesis by (auto simp: extract_track_def)
qed

lemma extract_ok:
  assumes "vel_off L \<noteq> None"
    "\<forall>t \<in> set (track_range L track). \<forall>p \<in> set (pattern_range L pattern).
       \<forall>s \<in> set (py_range (steps L)). step_in_bounds data L t p s"
  shows "extract_drum_patterns data L track pattern =
           Inr \<lparr>r_meta = L,
                r_tracks = map (track_spec data L (pattern_range L pattern)) (track_range L track)\<rparr>"
  using assms
  by (simp add: extract_drum_patterns_def
      collect_all_Inr [where g = "track_spec data L (pattern_range L pattern)"] extract_track_ok)

lemma extract_Inl_D:
  assumes "vel_off L \<noteq> None" "extract_drum_patterns data L track pattern = Inl e"
  shows "\<exists>t \<in> set (track_range L track). \<exists>p \<in> set (pattern_range L pattern).
         \<exists>s \<in> set (py_range (steps L)). \<exists>(name, fb) \<in> set (configured_fields L).
           \<not> in_buffer data (address_spec L fb t p s) \<and> e = oob_error (address_spec L fb t p s)"
proof -
  from assms have
    "collect (extract_track data L (pattern_range L pattern)) (track_range L track) [] = Inl e"
    by (simp add: extract_drum_patterns_def split: sum.splits)
  then obtain t where "t \<in> set (track_range L track)"
    "extract_track data L (pattern_range L pattern) t = Inl e"
    using collect_Inl_D by blast
  then show ?thesis using extract_track_Inl_D [OF assms(1)] by blast
qed

lemma extract_Inl_I:
  assumes "vel_off L \<noteq> None" "t \<in> set (track_range L track)"
    "p \<in> set (pattern_range L pattern)" "s \<in> set (py_range (steps L))"
    "\<not> step_in_bounds data L t p s"
  shows "\<exists>e. extract_drum_patterns data L track pattern = Inl e"
proof -
  obtain e where "extract_track data L (pattern_range L pattern) t = Inl e"
    using extract_track_Inl_I [OF assms(1,3,4,5)] by blast
  then have "\<exists>e'. collect (extract_track data L (pattern_range L pattern))
                 (track_range L track) [] = Inl e'"
    using assms(2) by (rule collect_Inl_I [where x = t and e = e, rotated])
  then show ?thesis using assms(1) by (auto simp: extract_drum_patterns_def)
qed

lemma extract_Inr_D:
  assumes "extract_drum_patterns data L track pattern = Inr res"
  shows "vel_off L \<noteq> None \<and>
         (\<forall>t \<in> set (track_range L track). \<forall>p \<in> set (pattern_range L pattern).
            \<forall>s \<in> set (py_range (steps L)). step_in_bounds data L t p s) \<and>
         res = \<lparr>r_meta = L,
                r_tracks = map (track_spec data L (pattern_range L pattern)) (track_range L track)\<rparr>"
proof -
  have v: "vel_off L \<noteq> None"
    using assms by (auto simp: extract_drum_patterns_def split: if_splits)
  have b: "\<forall>t \<in> set (track_range L track). \<forall>p \<in> set (pattern_range L pattern).
            \<forall>s \<in> set (py_range (steps L)). step_in_bounds data L t p s"
  proof (intro ballI)
    fix t p s
    assume "t \<in> set (track_range L track)" "p \<in> set (pattern_range L pattern)"
      "s \<in> set (py_range (steps L))"
    then show "step_in_bounds data L t p s"
      using extract_Inl_I [OF v, of t track p pattern s data] assms by auto
  qed
  show ?thesis using extract_ok [OF v b] assms v b by simp
qed

lemma set_py_range: "set (py_range n) = {0..<n}"
  by (auto simp: py_range_def)

lemma step_in_bounds_iff:
  "step_in_bounds data L t p s \<longleftrightarrow>
     (\<forall>(name, fb) \<in> set (configured_fields L). in_buffer data (address_spec L fb t p s))"
  by (simp add: step_in_bounds_def list_all_iff)

subsection \<open>Round trip\<close>

text \<open>
  C1. For every buffer, layout and selection of tracks and patterns: when the address
  \<open>base + field_base + t * track_stride + p * pattern_stride + s\<close> of every configured
  field lies within the buffer for every selected track \<open>t\<close>, pattern \<open>p\<close> and step \<open>s\<close>,
  the extraction succeeds, and the step record at \<open>(t, p, s)\<close> of its result holds, for
  each configured field, exactly the byte of the buffer at that address. Bytes planted at
  those addresses are therefore read back unchanged, at the same coordinates.
\<close>

theorem extraction_round_trip:
  assumes "vel_off L \<noteq> None"
    and "\<forall>t \<in> set (track_range L track). \<forall>p \<in> set (pattern_range L pattern).
         \<forall>s \<in> set (py_range (steps L)). \<forall>(name, fb) \<in> set (configured_fields L).
           in_buffer data (address_spec L fb t p s)"
  shows "\<exists>res. extract_drum_patterns data L track pattern = Inr res \<and>
           r_tracks res =
             map (\<lambda>t. \<lparr>te_track = t, te_patterns =
               map (\<lambda>p. \<lparr>pe_pattern = p, pe_steps =
                 map (\<lambda>s. map (\<lambda>(name, fb). (name, uint (data ! nat (address_spec L fb t p s))))
                            (configured_fields L))
                   (py_range (steps L))\<rparr>)
                 (pattern_range L pattern)\<rparr>)
               (track_range L track)"
proof -
  have "\<forall>t \<in> set (track_range L track). \<forall>p \<in> set (pattern_range L pattern).
         \<forall>s \<in> set (py_range (steps L)). step_in_bounds data L t p s"
    using assms(2) by (simp add: step_in_bounds_iff)
  from extract_ok [OF assms(1) this]
  show ?thesis
    by (simp add: track_spec_def pattern_spec_def step_spec_def fun_eq_iff cong: map_cong)
qed

lemma upto_eval: "[0..(1::int)] = [0, 1]" "[0..(0::int)] = [0]"
  by (simp_all add: upto.simps)

theorem extraction_round_trip_witness:
  "\<exists>res. extract_drum_patterns [10, 11, 12, 13, 14, 15, 16, 17, 18]
            \<lparr>base = 1, vel_off = Some 0, prob_off = Some 4, choice_off = None, mask_off = None,
             track_stride = 2, pattern_stride = 1, tracks = 2, patterns = 2, steps = 1\<rparr>
            None None = Inr res \<and>
         r_tracks res =
           [\<lparr>te_track = 0, te_patterns =
              [\<lparr>pe_pattern = 0, pe_steps = [[(''velocity'', 11), (''probability'', 15)]]\<rparr>,
               \<lparr>pe_pattern = 1, pe_steps = [[(''velocity'', 12), (''probability'', 16)]]\<rparr>]\<rparr>,
            \<lparr>te_track = 1, te_patterns =
              [\<lparr>pe_pattern = 0, pe_steps = [[(''velocity'', 13), (''probability'', 17)]]\<rparr>,
               \<lparr>pe_pattern = 1, pe_steps = [[(''velocity'', 14), (''probability'', 18)]]\<rparr>]\<rparr>]"
  using extraction_round_trip [of "\<lparr>base = 1, vel_off = Some 0, prob_off = Some 4,
      choice_off = None, mask_off = None, track_stride = 2, pattern_stride = 1, tracks = 2,
      patterns = 2, steps = 1\<rparr>" None None "[10, 11, 12, 13, 14, 15, 16, 17, 18]"]
  by (simp add: track_range_def pattern_range_def py_range_def configured_fields_def
      in_buffer_def address_spec_def upto_eval)

subsection \<open>Failing reads\<close>

text \<open>
  C2. If the address of a single configured field at a single selected coordinate lies
  outside the buffer, the whole extraction call fails: it returns an error and no result,
  so no track, pattern or step record is returned for any coordinate, also not for the
  tracks and patterns read before the failing one.
\<close>

theorem extraction_all_or_nothing:
  assumes "t \<in> set (track_range L track)" "p \<in> set (pattern_range L pattern)"
    "s \<in> set (py_range (steps L))" "(name, fb) \<in> set (configured_fields L)"
    "\<not> in_buffer data (address_spec L fb t p s)"
  shows "(\<exists>e. extract_drum_patterns data L track pattern = Inl e) \<and>
         (\<forall>res. extract_drum_patterns data L track pattern \<noteq> Inr res)"
proof (cases "vel_off L = None")
  case True
  then show ?thesis by (simp add: extract_drum_patterns_def)
next
  case False
  have "\<not> step_in_bounds data L t p s"
    using assms(4,5) by (auto simp: step_in_bounds_iff)
  from extract_Inl_I [OF False assms(1,2,3) this]
  show ?thesis by auto
qed

theorem extraction_all_or_nothing_witness:
  "(0::int) \<in> set (track_range \<lparr>base = 1, vel_off = Some 0, prob_off = Some 4, choice_off = None,
       mask_off = None, track_stride = 2, pattern_stride = 1, tracks = 2, patterns = 2,
       steps = 1\<rparr> None) \<and>
   extract_track [10, 11, 12, 13, 14, 15, 16, 17]
     \<lparr>base = 1, vel_off = Some 0, prob_off = Some 4, choice_off = None, mask_off = None,
      track_stride = 2, pattern_stride = 1, tracks = 2, patterns = 2, steps = 1\<rparr> [0, 1] 0 =
     Inr \<lparr>te_track = 0, te_patterns =
       [\<lparr>pe_pattern = 0, pe_steps = [[(''velocity'', 11), (''probability'', 15)]]\<rparr>,
        \<lparr>pe_pattern = 1, pe_steps = [[(''velocity'', 12), (''probability'', 16)]]\<rparr>]\<rparr> \<and>
   \<not> in_buffer [10, 11, 12, 13, 14, 15, 16, 17] 8 \<and>
   (\<exists>e. extract_drum_patterns [10, 11, 12, 13, 14, 15, 16, 17]
     \<lparr>base = 1, vel_off = Some 0, prob_off = Some 4, choice_off = None, mask_off = None,
      track_stride = 2, pattern_stride = 1, tracks = 2, patterns = 2, steps = 1\<rparr> None None = Inl e)"
proof -
  let ?L = "\<lparr>base = 1, vel_off = Some 0, prob_off = Some 4, choice_off = None,
       mask_off = None, track_stride = 2, pattern_stride = 1, tracks = 2, patterns = 2,
       steps = 1\<rparr>"
  let ?d = "[10, 11, 12, 13, 14, 15, 16, 17] :: buffer"
  have 1: "(0::int) \<in> set (track_range ?L None)" "(1::int) \<in> set (track_range ?L None)"
    "(1::int) \<in> set (pattern_range ?L None)" "(0::int) \<in> set (py_range (steps ?L))"
    by (simp_all add: track_range_def pattern_range_def py_range_def upto_eval)
  have 2: "(''probability'', 4) \<in> set (configured_fields ?L)"
    by (simp add: configured_fields_def)
  have 3: "\<not> in_buffer ?d (address_spec ?L 4 1 1 0)" "\<not> in_buffer ?d 8"
    by (simp_all add: in_buffer_def address_spec_def)
  have 4: "extract_track ?d ?L [0, 1] 0 =
     Inr \<lparr>te_track = 0, te_patterns =
       [\<lparr>pe_pattern = 0, pe_steps = [[(''velocity'', 11), (''probability'', 15)]]\<rparr>,
        \<lparr>pe_pattern = 1, pe_steps = [[(''velocity'', 12), (''probability'', 16)]]\<rparr>]\<rparr>"
    by code_simp
  from extraction_all_or_nothing [OF 1(2) 1(3) 1(4) 2 3(1)] 1(1) 3(2) 4
  show ?thesis by blast
qed

text \<open>
  C7, as amended. When the extraction fails because a computed address lies outside the
  buffer, the error is the \<open>IndexError\<close> of \<open>_read_u8\<close>, whose message names the
  offending offset in hexadecimal and nothing else: the offset is the address of a
  configured field at a selected coordinate, and the buffer length, the field name and
  the coordinates are not part of the error.
\<close>

theorem extraction_error_names_offset_only:
  assumes "vel_off L \<noteq> None"
    and "extract_drum_patterns data L track pattern = Inl e"
  shows "\<exists>t \<in> set (track_range L track). \<exists>p \<in> set (pattern_range L pattern).
         \<exists>s \<in> set (py_range (steps L)). \<exists>(name, fb) \<in> set (configured_fields L).
           \<not> in_buffer data (address_spec L fb t p s) \<and>
           e = IndexError (''read past end of buffer at 0x'' @ format_X (address_spec L fb t p s))"
  using extract_Inl_D [OF assms] by (simp add: oob_error_def)

text \<open>
  Three failing calls that differ in the buffer length (0 and 3), in the field whose read
  fails (velocity, then probability) and in the coordinates of the failing read (track 0,
  then track 1) raise one and the same error, so the error carries none of them.
\<close>

theorem extraction_error_counterexample:
  "extract_drum_patterns []
     \<lparr>base = 0, vel_off = Some 5, prob_off = None, choice_off = None, mask_off = None,
      track_stride = 1, pattern_stride = 1, tracks = 1, patterns = 1, steps = 1\<rparr> None None =
     Inl (IndexError ''read past end of buffer at 0x5'') \<and>
   extract_drum_patterns [7, 7, 7]
     \<lparr>base = 0, vel_off = Some 0, prob_off = Some 5, choice_off = None, mask_off = None,
      track_stride = 1, pattern_stride = 1, tracks = 1, patterns = 1, steps = 1\<rparr> None None =
     Inl (IndexError ''read past end of buffer at 0x5'') \<and>
   extract_drum_patterns [7, 7, 7]
     \<lparr>base = 0, vel_off = Some 1, prob_off = None, choice_off = None, mask_off = None,
      track_stride = 4, pattern_stride = 1, tracks = 2, patterns = 2, steps = 1\<rparr> None None =
     Inl (IndexError ''read past end of buffer at 0x5'')"
  by code_simp

theorem extraction_error_names_offset_only_witness:
  "\<exists>t \<in> set (track_range \<lparr>base = 0, vel_off = Some 1, prob_off = None, choice_off = None,
       mask_off = None, track_stride = 4, pattern_stride = 1, tracks = 2, patterns = 2,
       steps = 1\<rparr> None).
   \<exists>p \<in> set (pattern_range \<lparr>base = 0, vel_off = Some 1, prob_off = None, choice_off = None,
       mask_off = None, track_stride = 4, pattern_stride = 1, tracks = 2, patterns = 2,
       steps = 1\<rparr> None).
   \<exists>s \<in> set (py_range 1). \<exists>(name, fb) \<in> set [(''velocity'', 1)].
     \<not> in_buffer [7, 7, 7] (fb + t * 4 + p + s) \<and>
     IndexError ''read past end of buffer at 0x5'' =
     IndexError (''read past end of buffer at 0x'' @ format_X (fb + t * 4 + p + s))"
proof -
  let ?L = "\<lparr>base = 0, vel_off = Some 1, prob_off = None, choice_off = None,
       mask_off = None, track_stride = 4, pattern_stride = 1, tracks = 2, patterns = 2,
       steps = 1\<rparr>"
  have h: "extract_drum_patterns [7, 7, 7] ?L None None =
     Inl (IndexError ''read past end of buffer at 0x5'')"
    by code_simp
  have v: "vel_off ?L \<noteq> None" by simp
  from extraction_error_names_offset_only [OF v h]
  show ?thesis by (simp add: configured_fields_def address_spec_def)
qed

subsection \<open>Optional fields\<close>

text \<open>
  C8. In every step record of a successful extraction, \<open>velocity\<close> is present, and each
  of \<open>probability\<close>, \<open>choice\<close> and \<open>mask\<close> is present if and only if its field base is
  configured in the layout; a field that is not configured has no entry at all. The keys
  of the record are exactly the configured fields, in their order.
\<close>

theorem optional_fields_iff_configured:
  assumes "extract_drum_patterns data L track pattern = Inr res"
    and "te \<in> set (r_tracks res)" "pe \<in> set (te_patterns te)" "sd \<in> set (pe_steps pe)"
  shows "map_of sd ''velocity'' \<noteq> None \<and>
         (map_of sd ''probability'' \<noteq> None \<longleftrightarrow> prob_off L \<noteq> None) \<and>
         (map_of sd ''choice'' \<noteq> None \<longleftrightarrow> choice_off L \<noteq> None) \<and>
         (map_of sd ''mask'' \<noteq> None \<longleftrightarrow> mask_off L \<noteq> None) \<and>
         map fst sd = map fst (configured_fields L)"
proof -
  from extract_Inr_D [OF assms(1)] have v: "vel_off L \<noteq> None"
    and r: "r_tracks res = map (track_spec data L (pattern_range L pattern)) (track_range L track)"
    by simp_all
  from assms(2) r obtain t where "te = track_spec data L (pattern_range L pattern) t" by auto
  with assms(3) obtain p where "pe = pattern_spec data L t p" by (auto simp: track_spec_def)
  with assms(4) obtain s where sd: "sd = step_spec data L t p s" by (auto simp: pattern_spec_def)
  show ?thesis
    using v
    by (cases "vel_off L"; cases "prob_off L"; cases "choice_off L"; cases "mask_off L")
      (simp_all add: sd step_spec_def configured_fields_def)
qed

theorem optional_fields_iff_configured_witness:
  "map_of [(''velocity'', 11 :: int), (''choice'', 15)] ''velocity'' \<noteq> None \<and>
   map_of [(''velocity'', 11 :: int), (''choice'', 15)] ''probability'' = None \<and>
   map_of [(''velocity'', 11 :: int), (''choice'', 15)] ''choice'' \<noteq> None \<and>
   map_of [(''velocity'', 11 :: int), (''choice'', 15)] ''mask'' = None"
proof -
  let ?L = "\<lparr>base = 1, vel_off = Some 0, prob_off = None, choice_off = Some 4,
       mask_off = None, track_stride = 2, pattern_stride = 1, tracks = 2, patterns = 2,
       steps = 1\<rparr>"
  let ?d = "[10, 11, 12, 13, 14, 15, 16, 17, 18] :: buffer"
  let ?pe0 = "\<lparr>pe_pattern = 0, pe_steps = [[(''velocity'', 11), (''choice'', 15)]]\<rparr>"
  let ?pe1 = "\<lparr>pe_pattern = 1, pe_steps = [[(''velocity'', 12), (''choice'', 16)]]\<rparr>"
  let ?pe2 = "\<lparr>pe_pattern = 0, pe_steps = [[(''velocity'', 13), (''choice'', 17)]]\<rparr>"
  let ?pe3 = "\<lparr>pe_pattern = 1, pe_steps = [[(''velocity'', 14), (''choice'', 18)]]\<rparr>"
  let ?te0 = "\<lparr>te_track = 0, te_patterns = [?pe0, ?pe1]\<rparr>"
  let ?te1 = "\<lparr>te_track = 1, te_patterns = [?pe2, ?pe3]\<rparr>"
  let ?res = "\<lparr>r_meta = ?L, r_tracks = [?te0, ?te1]\<rparr>"
  have h: "extract_drum_patterns ?d ?L None None = Inr ?res"
    by code_simp
  have 1: "?te0 \<in> set (r_tracks ?res)" by simp
  have 2: "?pe0 \<in> set (te_patterns ?te0)" by simp
  have 3: "[(''velocity'', 11), (''choice'', 15)] \<in> set (pe_steps ?pe0)" by simp
  from optional_fields_iff_configured [OF h 1 2 3]
  show ?thesis by simp
qed

section \<open>The offset detector\<close>

subsection \<open>The candidate predicate\<close>

lemma fold_max_Max: "fold max bs (b :: byte) = Max (set (b # bs))"
  by (simp only: Max.set_eq_fold)

lemma ratio_ge_iff:
  assumes "seg \<noteq> []"
  shows "\<not> real (count_list seg x) / real (length seg) < 6 / 10 \<longleftrightarrow>
         6 * length seg \<le> 10 * count_list seg x"
proof -
  have "0 < real (length seg)" using assms by simp
  then have "(6 / 10 \<le> real (count_list seg x) / real (length seg)) =
             (6 / 10 * real (length seg) \<le> real (count_list seg x))"
    by (simp add: pos_le_divide_eq)
  also have "\<dots> = (real (6 * length seg) \<le> real (10 * count_list seg x))"
    by (simp add: mult.commute)
  also have "\<dots> = (6 * length seg \<le> 10 * count_list seg x)"
    by (simp only: of_nat_le_iff)
  finally show ?thesis by (simp add: not_less)
qed

lemma is_mask_candidate_iff:
  "is_mask_candidate seg \<longleftrightarrow>
     seg \<noteq> [] \<and> 6 / 10 \<le> real (count_list seg 0) / real (length seg) \<and> Max (set seg) \<le> 0x1F"
  by (cases seg) (auto simp: is_mask_candidate_def Let_def fold_max_Max not_less simp del: Max_less_iff Max_le_iff Max.set_eq_fold)

text \<open>
  C6. The candidate predicate accepts a segment if and only if the segment is not empty,
  the fraction of its zero bytes is at least 0.60 and its maximum byte value is at most
  0x1F. In particular a segment with exactly 59 percent zero bytes is rejected, and one
  with exactly 60 percent zero bytes and no byte above 0x1F is accepted.
\<close>

theorem mask_candidate_predicate:
  "(is_mask_candidate seg \<longleftrightarrow>
      seg \<noteq> [] \<and> 6 / 10 \<le> real (count_list seg 0) / real (length seg) \<and>
      Max (set seg) \<le> 0x1F) \<and>
   (seg \<noteq> [] \<and> 100 * count_list seg 0 = 59 * length seg \<longrightarrow> \<not> is_mask_candidate seg) \<and>
   (seg \<noteq> [] \<and> 100 * count_list seg 0 = 60 * length seg \<and> Max (set seg) \<le> 0x1F \<longrightarrow>
      is_mask_candidate seg)"
proof (intro conjI impI)
  show "is_mask_candidate seg \<longleftrightarrow>
      seg \<noteq> [] \<and> 6 / 10 \<le> real (count_list seg 0) / real (length seg) \<and>
      Max (set seg) \<le> 0x1F"
    by (rule is_mask_candidate_iff)
next
  assume a: "seg \<noteq> [] \<and> 100 * count_list seg 0 = 59 * length seg"
  then have "0 < length seg" by simp
  with a have "\<not> 6 * length seg \<le> 10 * count_list seg 0" by linarith
  with a have "real (count_list seg 0) / real (length seg) < 6 / 10"
    using ratio_ge_iff [of seg 0] by blast
  then show "\<not> is_mask_candidate seg"
    by (simp add: is_mask_candidate_iff)
next
  assume a: "seg \<noteq> [] \<and> 100 * count_list seg 0 = 60 * length seg \<and> Max (set seg) \<le> 0x1F"
  then have "6 * length seg \<le> 10 * count_list seg 0" by linarith
  with a have "6 / 10 \<le> real (count_list seg 0) / real (length seg)"
    using ratio_ge_iff [of seg 0] by (simp add: not_less)
  with a show "is_mask_candidate seg"
    by (simp add: is_mask_candidate_iff)
qed

theorem mask_candidate_predicate_witness:
  "\<not> is_mask_candidate (replicate 59 0 @ replicate 41 1) \<and>
   is_mask_candidate (replicate 60 0 @ replicate 40 0x1F) \<and>
   \<not> is_mask_candidate (replicate 60 0 @ replicate 40 0x20)"
proof -
  let ?a = "replicate 59 0 @ replicate 41 1 :: buffer"
  let ?b = "replicate 60 0 @ replicate 40 0x1F :: buffer"
  let ?c = "replicate 60 0 @ replicate 40 0x20 :: buffer"
  have a: "?a \<noteq> [] \<and> 100 * count_list ?a 0 = 59 * length ?a"
    by code_simp
  have b: "?b \<noteq> [] \<and> 100 * count_list ?b 0 = 60 * length ?b \<and> Max (set ?b) \<le> 0x1F"
    by code_simp
  have c: "\<not> Max (set ?c) \<le> 0x1F"
    by code_simp
  from mask_candidate_predicate [of ?a] a have 1: "\<not> is_mask_candidate ?a" by blast
  from mask_candidate_predicate [of ?b] b have 2: "is_mask_candidate ?b" by blast
  from mask_candidate_predicate [of ?c] c have 3: "\<not> is_mask_candidate ?c" by blast
  from 1 2 3 show ?thesis by blast
qed

subsection \<open>The ratio test in floating point\<close>

lemma binary64_I:
  assumes "\<bar>m\<bar> < 2 ^ 53"
  shows "real_of_int m / 2 ^ 53 \<in> binary64"
proof -
  have "(2::real) powr real_of_int (- 53) = 1 / 2 ^ 53"
    by (simp add: powr_minus_divide powr_realpow [symmetric])
  then have "real_of_int m / 2 ^ 53 = real_of_int m * 2 powr real_of_int (- 53)"
    by simp
  moreover have "- 1074 \<le> (- 53 :: int)" "(- 53 :: int) \<le> 971" by simp_all
  ultimately show ?thesis
    unfolding binary64_def using assms by blast
qed

lemma below_threshold_gap:
  fixes z n :: nat
  assumes "0 < n" "n < 2 ^ 51" "real z / real n < 6 / 10"
  shows "real z / real n < 5404319552844594 / 2 ^ 53 + 4 / 10 / 2 ^ 53"
proof -
  have n: "0 < real n" using assms(1) by simp
  have "real z * 10 < 6 * real n"
    using assms(3) n by (simp add: field_simps)
  then have "real (10 * z) < real (6 * n)" by simp
  then have "10 * z < 6 * n" by (simp only: of_nat_less_iff)
  then have "5 * z + 1 \<le> 3 * n" by linarith
  then have "real (5 * z + 1) \<le> real (3 * n)" by (simp only: of_nat_le_iff)
  then have a: "5 * real z + 1 \<le> 3 * real n" by simp
  have "real n < 2 ^ 51" using assms(2)
    by (metis of_nat_less_iff of_nat_numeral of_nat_power)
  then have b: "real n * 4 < 2 ^ 53" by simp
  have "real z < (5404319552844594 / 2 ^ 53 + 4 / 10 / 2 ^ 53) * real n"
  proof -
    have "5 * real z \<le> 3 * real n - 1" using a by simp
    moreover have "3 * real n - 1 < 5 * ((5404319552844594 / 2 ^ 53 + 4 / 10 / 2 ^ 53) * real n)"
      using b n by (simp add: field_simps)
    ultimately show ?thesis by linarith
  qed
  then show ?thesis using n by (simp add: pos_divide_less_eq)
qed

lemma nearest_lower:
  fixes r x d :: real
  assumes "\<bar>r - x\<bar> \<le> \<bar>d - x\<bar>" "d \<le> x"
  shows "d \<le> r"
  using assms by linarith

lemma nearest_upper:
  fixes r x d g :: real
  assumes "\<bar>r - x\<bar> \<le> \<bar>d - x\<bar>" "x < d + g" "0 < g"
  shows "r < d + 2 * g"
  using assms by linarith

lemma nearest_mono:
  fixes r c a q :: real
  assumes "\<bar>c - a\<bar> \<le> \<bar>r - a\<bar>" "\<bar>r - q\<bar> \<le> \<bar>c - q\<bar>" "a < q"
  shows "\<not> r < c"
  using assms by linarith

lemma float_ratio_test:
  fixes z n :: nat and fl :: "real \<Rightarrow> real"
  assumes q: "nearest_binary64 (real z / real n) (fl (real z / real n))"
    and c: "nearest_binary64 (6 / 10) (fl (6 / 10))"
    and n: "0 < n" "n < 2 ^ 51"
  shows "fl (real z / real n) < fl (6 / 10) \<longleftrightarrow> real z / real n < 6 / 10"
proof -
  let ?q = "real z / real n"
  let ?d0 = "5404319552844594 / 2 ^ 53 :: real"
  let ?d1 = "5404319552844595 / 2 ^ 53 :: real"
  have d0: "?d0 \<in> binary64" using binary64_I [of 5404319552844594] by simp
  have d1: "?d1 \<in> binary64" using binary64_I [of 5404319552844595] by simp
  have qb: "fl ?q \<in> binary64" and qn: "\<forall>d \<in> binary64. \<bar>fl ?q - ?q\<bar> \<le> \<bar>d - ?q\<bar>"
    using q unfolding nearest_binary64_def by blast+
  have cb: "fl (6 / 10) \<in> binary64"
    and cn: "\<forall>d \<in> binary64. \<bar>fl (6 / 10) - 6 / 10\<bar> \<le> \<bar>d - 6 / 10\<bar>"
    using c unfolding nearest_binary64_def by blast+
  have "\<bar>fl (6 / 10) - 6 / 10\<bar> \<le> \<bar>?d1 - 6 / 10\<bar>" using cn d1 by blast
  moreover have "?d1 \<le> 6 / 10" by simp
  ultimately have lo: "?d1 \<le> fl (6 / 10)" by (rule nearest_lower)
  show ?thesis
  proof (cases "?q < 6 / 10")
    case True
    from below_threshold_gap [OF n True] have g: "?q < ?d0 + 4 / 10 / 2 ^ 53" .
    have "\<bar>fl ?q - ?q\<bar> \<le> \<bar>?d0 - ?q\<bar>" using qn d0 by blast
    from nearest_upper [OF this g] have "fl ?q < ?d0 + 2 * (4 / 10 / 2 ^ 53)" by simp
    moreover have "?d0 + 2 * (4 / 10 / 2 ^ 53) \<le> ?d1" by simp
    ultimately have "fl ?q < ?d1" by linarith
    with lo have "fl ?q < fl (6 / 10)" by linarith
    with True show ?thesis by blast
  next
    case False
    show ?thesis
    proof (cases "?q = 6 / 10")
      case True
      then have "fl ?q = fl (6 / 10)" by (rule arg_cong)
      with False show ?thesis by simp
    next
      case neq: False
      with False have gt: "6 / 10 < ?q" by linarith
      have 1: "\<bar>fl (6 / 10) - 6 / 10\<bar> \<le> \<bar>fl ?q - 6 / 10\<bar>" using cn qb by blast
      have 2: "\<bar>fl ?q - ?q\<bar> \<le> \<bar>fl (6 / 10) - ?q\<bar>" using qn cb by blast
      from nearest_mono [OF 1 2 gt] False show ?thesis by blast
    qed
  qed
qed

lemma no_binary64_between:
  assumes "d \<in> binary64" "5404319552844595 / 2 ^ 53 < d"
  shows "5404319552844596 / 2 ^ 53 \<le> d"
proof -
  from assms(1) obtain m e where d: "d = real_of_int m * 2 powr real_of_int e"
    and m: "\<bar>m\<bar> < 2 ^ 53" and e: "- 1074 \<le> e"
    unfolding binary64_def by blast
  have s: "d * 2 ^ 53 = real_of_int m * 2 powr real_of_int (e + 53)"
    by (simp add: d powr_add)
  have lt: "5404319552844595 < d * 2 ^ 53"
    using assms(2) by (simp add: field_simps)
  show ?thesis
  proof (cases "0 \<le> e + 53")
    case True
    then have "2 powr real_of_int (e + 53) = (2::real) ^ nat (e + 53)"
      by (simp only: powr_real_of_int) simp
    with s have i: "d * 2 ^ 53 = real_of_int (m * 2 ^ nat (e + 53))" by simp
    with lt have "real_of_int 5404319552844595 < real_of_int (m * 2 ^ nat (e + 53))" by simp
    then have "5404319552844595 < m * 2 ^ nat (e + 53)" by (simp only: of_int_less_iff)
    then have "5404319552844596 \<le> m * 2 ^ nat (e + 53)" by linarith
    then have "real_of_int 5404319552844596 \<le> real_of_int (m * 2 ^ nat (e + 53))"
      by (simp only: of_int_le_iff)
    with i have "5404319552844596 \<le> d * 2 ^ 53" by simp
    then show ?thesis by (simp add: field_simps)
  next
    case False
    then have k: "1 \<le> nat (- (e + 53))" by simp
    from False have p: "2 powr real_of_int (e + 53) = inverse ((2::real) ^ nat (- (e + 53)))"
      by (simp only: powr_real_of_int) simp
    have "(2::real) ^ 1 \<le> 2 ^ nat (- (e + 53))"
      using k by (intro power_increasing) simp_all
    then have "inverse ((2::real) ^ nat (- (e + 53))) \<le> inverse (2 ^ 1)"
      by (intro le_imp_inverse_le) simp_all
    with p have h: "2 powr real_of_int (e + 53) \<le> 1 / 2" "0 \<le> 2 powr real_of_int (e + 53)"
      by simp_all
    have "real_of_int m \<le> 2 ^ 53" using m
      by (metis abs_le_D1 less_imp_le of_int_le_iff of_int_numeral of_int_power)
    then have "real_of_int m * 2 powr real_of_int (e + 53) \<le> 2 ^ 53 * (1 / 2)"
      using h by (intro mult_mono) simp_all
    with s lt show ?thesis by simp
  qed
qed

lemma nearest_binary64_six_tenths:
  "nearest_binary64 (6 / 10) (5404319552844595 / 2 ^ 53)"
proof -
  have "\<bar>5404319552844595 / 2 ^ 53 - 6 / 10\<bar> \<le> \<bar>d - 6 / 10\<bar>" if d: "d \<in> binary64" for d :: real
  proof (cases "5404319552844595 / 2 ^ 53 < d")
    case True
    from no_binary64_between [OF d True] show ?thesis by simp
  next
    case False
    then show ?thesis by simp
  qed
  moreover have "5404319552844595 / 2 ^ 53 \<in> binary64"
    using binary64_I [of 5404319552844595] by simp
  ultimately show ?thesis unfolding nearest_binary64_def by blast
qed

lemma nearest_binary64_self: "r \<in> binary64 \<Longrightarrow> nearest_binary64 r r"
  by (simp add: nearest_binary64_def)

text \<open>
  With any rounding to a nearest binary64 number, the predicate evaluated in floating
  point is the predicate on the exact numbers, for every segment shorter than \<open>2 ^ 51\<close>
  bytes.
\<close>

lemma is_mask_candidate_fl_exact:
  assumes "\<And>x. nearest_binary64 x (fl x)" and "length seg < 2 ^ 51"
  shows "is_mask_candidate_fl fl seg = is_mask_candidate seg"
proof (cases seg)
  case Nil
  then show ?thesis by (simp add: is_mask_candidate_fl_def is_mask_candidate_def)
next
  case (Cons b bs)
  then have "0 < length seg" by simp
  from float_ratio_test [OF assms(1) assms(1) this assms(2), of "count_list seg 0"]
  have "fl (real (count_list seg 0) / real (length seg)) < fl (6 / 10) \<longleftrightarrow>
        real (count_list seg 0) / real (length seg) < 6 / 10" .
  then show ?thesis
    unfolding is_mask_candidate_fl_def is_mask_candidate_def Let_def Cons list.case
    by (simp only: Cons [symmetric])
qed

subsection \<open>Scanning and derived offsets\<close>

lemma scan_candidates_Cons_D:
  "scan_candidates data len off = m # rest \<Longrightarrow>
     rest = [] \<and> off \<le> m \<and> m < int (length data) - len \<and> 16 dvd (m - off) \<and>
     is_mask_candidate (py_slice data m (m + len))"
proof (induction data len off rule: scan_candidates.induct)
  case (1 data len off)
  show ?case
  proof (cases "off < int (length data) - len")
    case False
    with "1.prems" show ?thesis by (simp add: scan_candidates.simps)
  next
    case True
    show ?thesis
    proof (cases "is_mask_candidate (py_slice data off (off + len))")
      case c: True
      with True "1.prems" show ?thesis by (simp add: scan_candidates.simps)
    next
      case c: False
      with True "1.prems" have "scan_candidates data len (off + 16) = m # rest"
        by (simp add: scan_candidates.simps)
      from "1.IH" [OF True c this] show ?thesis
        by (auto simp: algebra_simps)
    qed
  qed
qed

lemma scan_candidates_Nil_iff:
  "scan_candidates data len off = [] \<longleftrightarrow>
     (\<forall>k::nat. off + 16 * int k < int (length data) - len \<longrightarrow>
        \<not> is_mask_candidate (py_slice data (off + 16 * int k) (off + 16 * int k + len)))"
proof (induction data len off rule: scan_candidates.induct)
  case (1 data len off)
  show ?case
  proof (cases "off < int (length data) - len")
    case False
    then have "\<And>k::nat. \<not> off + 16 * int k < int (length data) - len" by linarith
    with False show ?thesis by (simp add: scan_candidates.simps)
  next
    case True
    show ?thesis
    proof (cases "is_mask_candidate (py_slice data off (off + len))")
      case c: True
      have "scan_candidates data len off \<noteq> []"
        using True c by (simp add: scan_candidates.simps)
      moreover have "off + 16 * int 0 < int (length data) - len \<and>
        is_mask_candidate (py_slice data (off + 16 * int 0) (off + 16 * int 0 + len))"
        using True c by simp
      ultimately show ?thesis by blast
    next
      case c: False
      have "scan_candidates data len off = scan_candidates data len (off + 16)"
        using True c by (simp add: scan_candidates.simps)
      also have "\<dots> = [] \<longleftrightarrow> (\<forall>k::nat. off + 16 + 16 * int k < int (length data) - len \<longrightarrow>
        \<not> is_mask_candidate (py_slice data (off + 16 + 16 * int k) (off + 16 + 16 * int k + len)))"
        using "1.IH" [OF True c] .
      also have "\<dots> \<longleftrightarrow> (\<forall>k::nat. off + 16 * int k < int (length data) - len \<longrightarrow>
        \<not> is_mask_candidate (py_slice data (off + 16 * int k) (off + 16 * int k + len)))"
        (is "?A \<longleftrightarrow> ?B")
      proof
        assume a: ?A
        show ?B
        proof (intro allI impI)
          fix k :: nat
          assume b: "off + 16 * int k < int (length data) - len"
          show "\<not> is_mask_candidate (py_slice data (off + 16 * int k) (off + 16 * int k + len))"
          proof (cases k)
            case 0
            then show ?thesis using c by simp
          next
            case (Suc j)
            then have "off + 16 * int k = off + 16 + 16 * int j" by simp
            then show ?thesis using a b by metis
          qed
        qed
      next
        assume b: ?B
        show ?A
        proof (intro allI impI)
          fix k :: nat
          assume "off + 16 + 16 * int k < int (length data) - len"
          moreover have "off + 16 + 16 * int k = off + 16 * int (Suc k)" by simp
          ultimately show "\<not> is_mask_candidate
              (py_slice data (off + 16 + 16 * int k) (off + 16 + 16 * int k + len))"
            using b by metis
        qed
      qed
      finally show ?thesis .
    qed
  qed
qed

lemma off_diffs:
  "the (map_of DEFAULT_OFF_DIFFS ''vel'') = DEFAULT_VEL_OFF - DEFAULT_MASK_OFF"
  "the (map_of DEFAULT_OFF_DIFFS ''prob'') = DEFAULT_PROB_OFF - DEFAULT_MASK_OFF"
  "the (map_of DEFAULT_OFF_DIFFS ''choice'') = DEFAULT_CHOICE_OFF - DEFAULT_MASK_OFF"
  by (simp_all add: DEFAULT_OFF_DIFFS_def)

lemma detect_Some_D:
  assumes "detect_drum_offsets data nt np ns hint = Some r"
  shows "\<exists>m. r = [(''velocity'', m + (DEFAULT_VEL_OFF - DEFAULT_MASK_OFF)),
                   (''probability'', m + (DEFAULT_PROB_OFF - DEFAULT_MASK_OFF)),
                   (''choice'', m + (DEFAULT_CHOICE_OFF - DEFAULT_MASK_OFF)),
                   (''mask'', m)] \<and>
             is_mask_candidate (py_slice data m (m + nt * np * ns)) \<and>
             0 \<le> m + (DEFAULT_VEL_OFF - DEFAULT_MASK_OFF) \<and>
             m + (DEFAULT_VEL_OFF - DEFAULT_MASK_OFF) + nt * np * ns \<le> int (length data) \<and>
             0 \<le> m + (DEFAULT_PROB_OFF - DEFAULT_MASK_OFF) \<and>
             m + (DEFAULT_PROB_OFF - DEFAULT_MASK_OFF) + nt * np * ns \<le> int (length data) \<and>
             0 \<le> m + (DEFAULT_CHOICE_OFF - DEFAULT_MASK_OFF) \<and>
             m + (DEFAULT_CHOICE_OFF - DEFAULT_MASK_OFF) + nt * np * ns \<le> int (length data) \<and>
             0 \<le> m \<and> m + nt * np * ns \<le> int (length data)"
proof -
  let ?len = "nt * np * ns"
  let ?hinted = "(case hint of None \<Rightarrow> []
                    | Some h \<Rightarrow>
                        if h \<ge> 0 \<and> h + ?len \<le> int (length data)
                        then (if is_mask_candidate (py_slice data h (h + ?len)) then [h] else [])
                        else [])"
  let ?cands = "if ?hinted = [] then scan_candidates data ?len 0 else ?hinted"
  from assms obtain m rest where c: "?cands = m # rest"
    by (cases ?cands) (simp_all add: detect_drum_offsets_def Let_def)
  have cand: "is_mask_candidate (py_slice data m (m + ?len))"
  proof (cases "?hinted = []")
    case True
    with c have "scan_candidates data ?len 0 = m # rest" by simp
    from scan_candidates_Cons_D [OF this] show ?thesis by simp
  next
    case False
    with c have "?hinted = m # rest" by simp
    then show ?thesis by (auto split: option.splits if_splits)
  qed
  from assms c have
    "(if list_ex (\<lambda>off. off < 0 \<or> off + ?len > int (length data))
          [m + (DEFAULT_VEL_OFF - DEFAULT_MASK_OFF), m + (DEFAULT_PROB_OFF - DEFAULT_MASK_OFF),
           m + (DEFAULT_CHOICE_OFF - DEFAULT_MASK_OFF), m]
      then None
      else Some [(''velocity'', m + (DEFAULT_VEL_OFF - DEFAULT_MASK_OFF)),
                 (''probability'', m + (DEFAULT_PROB_OFF - DEFAULT_MASK_OFF)),
                 (''choice'', m + (DEFAULT_CHOICE_OFF - DEFAULT_MASK_OFF)),
                 (''mask'', m)]) = Some r"
    by (simp add: detect_drum_offsets_def Let_def off_diffs)
  then show ?thesis using cand by (auto split: if_splits)
qed

lemma scan_candidates_first:
  "scan_candidates data len off = m # rest \<Longrightarrow> off + 16 * int k < m \<Longrightarrow>
     \<not> is_mask_candidate (py_slice data (off + 16 * int k) (off + 16 * int k + len))"
proof (induction data len off arbitrary: k rule: scan_candidates.induct)
  case (1 data len off)
  from scan_candidates_Cons_D [OF "1.prems"(1)] have lt: "off < int (length data) - len"
    using "1.prems"(2) by linarith
  show ?case
  proof (cases "is_mask_candidate (py_slice data off (off + len))")
    case True
    with lt "1.prems" show ?thesis by (simp add: scan_candidates.simps)
  next
    case c: False
    with lt "1.prems" have n: "scan_candidates data len (off + 16) = m # rest"
      by (simp add: scan_candidates.simps)
    show ?thesis
    proof (cases k)
      case 0
      then show ?thesis using c by simp
    next
      case (Suc j)
      then have e: "off + 16 * int k = off + 16 + 16 * int j" by simp
      with "1.prems"(2) have "off + 16 + 16 * int j < m" by simp
      from "1.IH" [OF lt c n this] e show ?thesis by metis
    qed
  qed
qed

text \<open>
  C4. Offset detection returns either the signal \<open>None\<close> or a complete set of four
  offsets: the accepted mask base, whose segment satisfies the candidate predicate, and
  the velocity, probability and choice bases obtained from it by adding the fixed
  differences of the default offsets; in that case each of the four segments of
  \<open>tracks * patterns * steps\<close> bytes lies within the buffer. A partial set is never
  returned, and a derived segment out of bounds yields \<open>None\<close>.
\<close>

theorem detection_all_or_nothing:
  "detect_drum_offsets data nt np ns hint = None \<or>
   (\<exists>m. detect_drum_offsets data nt np ns hint =
           Some [(''velocity'', m + (DEFAULT_VEL_OFF - DEFAULT_MASK_OFF)),
                 (''probability'', m + (DEFAULT_PROB_OFF - DEFAULT_MASK_OFF)),
                 (''choice'', m + (DEFAULT_CHOICE_OFF - DEFAULT_MASK_OFF)),
                 (''mask'', m)] \<and>
         is_mask_candidate (py_slice data m (m + nt * np * ns)) \<and>
         0 \<le> m + (DEFAULT_VEL_OFF - DEFAULT_MASK_OFF) \<and>
         m + (DEFAULT_VEL_OFF - DEFAULT_MASK_OFF) + nt * np * ns \<le> int (length data) \<and>
         0 \<le> m + (DEFAULT_PROB_OFF - DEFAULT_MASK_OFF) \<and>
         m + (DEFAULT_PROB_OFF - DEFAULT_MASK_OFF) + nt * np * ns \<le> int (length data) \<and>
         0 \<le> m + (DEFAULT_CHOICE_OFF - DEFAULT_MASK_OFF) \<and>
         m + (DEFAULT_CHOICE_OFF - DEFAULT_MASK_OFF) + nt * np * ns \<le> int (length data) \<and>
         0 \<le> m \<and> m + nt * np * ns \<le> int (length data))"
proof (cases "detect_drum_offsets data nt np ns hint")
  case None
  then show ?thesis by simp
next
  case (Some r)
  from detect_Some_D [OF Some] Some show ?thesis by auto
qed

theorem detection_all_or_nothing_witness:
  "\<exists>m. detect_drum_offsets (replicate 96 0xFF @ [0, 0xFF]) 1 1 1 None =
          Some [(''velocity'', m - 96), (''probability'', m - 64), (''choice'', m - 32),
                (''mask'', m)] \<and> 0 \<le> m - 96 \<and> m + 1 \<le> 98"
proof -
  have e: "detect_drum_offsets (replicate 96 0xFF @ [0, 0xFF]) 1 1 1 None =
          Some [(''velocity'', 0), (''probability'', 32), (''choice'', 64), (''mask'', 96)]"
    by code_simp
  from detection_all_or_nothing [of "replicate 96 0xFF @ [0, 0xFF]" 1 1 1 None]
  show ?thesis
    by (simp add: e DEFAULT_VEL_OFF_def DEFAULT_PROB_OFF_def DEFAULT_CHOICE_OFF_def
        DEFAULT_MASK_OFF_def)
qed

text \<open>
  C5. The claim has the scan examine every multiple of 16 up to and including
  \<open>buffer_length - length\<close>. The loop runs over \<open>range(0, len(data) - length, 16)\<close>, whose
  upper bound is exclusive, so the offset \<open>len(data) - length\<close> itself is never examined.
  In a buffer of 96 bytes 0xFF followed by one zero byte, with one track, one pattern and
  one step, the segment at offset 96 fits, satisfies the predicate and has its three
  derived segments in bounds, yet the scan finds no candidate and detection returns
  \<open>None\<close>; the hint path, whose bound \<open>mask_off_hint + length <= len(data)\<close> is inclusive,
  accepts the same offset.
\<close>

theorem scan_skips_last_offset:
  "int (length (replicate 96 0xFF @ [0 :: byte])) - 1 * 1 * 1 = 96 \<and>
   is_mask_candidate (py_slice (replicate 96 0xFF @ [0]) 96 (96 + 1 * 1 * 1)) \<and>
   scan_candidates (replicate 96 0xFF @ [0]) (1 * 1 * 1) 0 = [] \<and>
   detect_drum_offsets (replicate 96 0xFF @ [0]) 1 1 1 None = None \<and>
   detect_drum_offsets (replicate 96 0xFF @ [0]) 1 1 1 (Some 96) =
     Some [(''velocity'', 0), (''probability'', 32), (''choice'', 64), (''mask'', 96)]"
  by code_simp

section \<open>The glyph renderer\<close>

lemma level_div:
  fixes v q :: int
  assumes "32 * q \<le> v" "v < 32 * q + 32"
  shows "(v * int (length levels)) div 128 = q"
proof -
  have "v * 4 = 128 * q + (v * 4 - 128 * q)" by simp
  moreover have "0 \<le> v * 4 - 128 * q" "v * 4 - 128 * q < 128" using assms by linarith+
  ultimately have "(v * 4) div 128 = q" by (rule int_div_pos_eq)
  then show ?thesis by (simp add: levels_def)
qed

lemma level_index_low:
  fixes v :: int
  assumes "v < 32"
  shows "clamp ((v * int (length levels)) div 128) 0 (int (length levels) - 1) = 0"
proof -
  have "v * 4 \<le> 124" using assms by linarith
  then have "(v * 4) div 128 \<le> 124 div 128" by (rule zdiv_mono1) simp
  then have "(v * int (length levels)) div 128 \<le> 0" by (simp add: levels_def)
  then show ?thesis by (simp add: clamp_def levels_def)
qed

lemma level_index_high:
  fixes v :: int
  assumes "96 \<le> v"
  shows "clamp ((v * int (length levels)) div 128) 0 (int (length levels) - 1) = 3"
proof -
  have "384 \<le> v * 4" using assms by linarith
  then have "384 div 128 \<le> (v * 4) div 128" by (rule zdiv_mono1) simp
  then have "3 \<le> (v * int (length levels)) div 128" by (simp add: levels_def)
  then show ?thesis by (simp add: clamp_def levels_def)
qed

lemma level_index_mid:
  fixes v :: int
  shows "32 \<le> v \<Longrightarrow> v < 64 \<Longrightarrow>
           clamp ((v * int (length levels)) div 128) 0 (int (length levels) - 1) = 1"
    and "64 \<le> v \<Longrightarrow> v < 96 \<Longrightarrow>
           clamp ((v * int (length levels)) div 128) 0 (int (length levels) - 1) = 2"
  using level_div [of 1 v] level_div [of 2 v] by (simp_all add: clamp_def levels_def)

lemma glyph_rank_levels:
  "glyph_rank (levels ! 0 # r) = 1" "glyph_rank (levels ! Suc 0 # r) = 2"
  "glyph_rank (levels ! 2 # r) = 3" "glyph_rank (levels ! 3 # r) = 4"
  by (simp_all add: glyph_rank_def levels_def)

lemma glyph_rank_step_symbol:
  "glyph_rank (step_symbol v pr) =
     (if v = 0 then 0 else if v < 32 then 1 else if v < 64 then 2 else if v < 96 then 3 else 4)"
proof -
  have s: "v \<noteq> 0 \<Longrightarrow> \<exists>r. step_symbol v pr =
      levels ! nat (clamp ((v * int (length levels)) div 128) 0 (int (length levels) - 1)) # r"
    by (cases pr) (simp_all add: step_symbol_def Let_def)
  show ?thesis
  proof (cases "v = 0")
    case True
    then show ?thesis by (simp add: step_symbol_def glyph_rank_def)
  next
    case False
    from s [OF False] obtain r where r: "step_symbol v pr =
      levels ! nat (clamp ((v * int (length levels)) div 128) 0 (int (length levels) - 1)) # r" ..
    consider "v < 32" | "32 \<le> v" "v < 64" | "64 \<le> v" "v < 96" | "96 \<le> v" by linarith
    then show ?thesis
    proof cases
      case 1
      with False show ?thesis by (simp add: r level_index_low glyph_rank_levels)
    next
      case 2
      with False show ?thesis by (simp add: r level_index_mid glyph_rank_levels)
    next
      case 3
      with False show ?thesis by (simp add: r level_index_mid glyph_rank_levels)
    next
      case 4
      with False show ?thesis by (simp add: r level_index_high glyph_rank_levels)
    qed
  qed
qed

text \<open>
  C9. The glyph of a step is monotonic non-decreasing in the velocity, in the order dot,
  U+2581, U+2583, U+2585, U+2588 of the scale, for all velocities from 0 upwards and so
  over 0..255; velocity 0 is drawn as the dot, the silence glyph, and velocity 127 as the
  last glyph of \<open>levels\<close>, the highest of the scale.
\<close>

theorem glyph_monotonic:
  "(0 \<le> v \<and> v \<le> w \<longrightarrow> glyph_rank (step_symbol v pv) \<le> glyph_rank (step_symbol w pw)) \<and>
   step_symbol 0 pv = [0x2E] \<and> glyph_rank [0x2E] = 0 \<and>
   step_symbol 127 None = [last levels] \<and> glyph_rank [last levels] = 4 \<and>
   glyph_rank (step_symbol w pw) \<le> 4"
proof (intro conjI impI)
  assume a: "0 \<le> v \<and> v \<le> w"
  then show "glyph_rank (step_symbol v pv) \<le> glyph_rank (step_symbol w pw)"
    by (simp add: glyph_rank_step_symbol)
next
  show "step_symbol 0 pv = [0x2E]" by (simp add: step_symbol_def)
  show "glyph_rank [0x2E] = 0" by (simp add: glyph_rank_def)
  show "step_symbol 127 None = [last levels]"
    using level_index_high [of 127] by (simp add: step_symbol_def Let_def) (simp add: levels_def)
  show "glyph_rank [last levels] = 4" by (simp add: glyph_rank_def levels_def)
  show "glyph_rank (step_symbol w pw) \<le> 4"
    by (simp add: glyph_rank_step_symbol)
qed

theorem glyph_monotonic_witness:
  "glyph_rank (step_symbol 31 None) \<le> glyph_rank (step_symbol 32 None) \<and>
   step_symbol 31 None = [0x2581] \<and> step_symbol 32 None = [0x2583] \<and>
   step_symbol 0 None = [0x2E] \<and> step_symbol 127 None = [0x2588] \<and>
   step_symbol 255 (Some 7) = [0x2588, 0x37]"
proof -
  have "step_symbol 31 None = [0x2581]" "step_symbol 32 None = [0x2583]"
    "step_symbol 0 None = [0x2E]" "step_symbol 127 None = [0x2588]"
    "step_symbol 255 (Some 7) = [0x2588, 0x37]"
    by (simp_all add: step_symbol_def clamp_def levels_def str_int_def dec_nat.simps)
  with glyph_monotonic [of 31 32 None None] show ?thesis by simp
qed

text \<open>
  C10. A step of velocity 0 is drawn as the dot alone, whatever its probability is and
  also when the probability digit is requested: no digit follows the silence glyph.
\<close>

theorem silence_without_digit:
  "step_symbol 0 probability = [0x2E] \<and>
   render_ascii [[(''velocity'', 0), (''probability'', pr)]] True = [0x2E] \<and>
   render_ascii [AList.update ''probability'' pr (AList.update ''velocity'' 0 [])] True = [0x2E]"
  by (simp add: step_symbol_def render_ascii_def)

end
